theory Spec2Isabelle
  imports Main "HOL-Library.Word"
begin

unbundle bit_operations_syntax

section \<open>Machine integers\<close>

text \<open>
  The library computes on \<open>uint64_t\<close>; the product inside \<open>permute\<close> is widened to
  \<open>__uint128_t\<close>; the table of small primes holds \<open>uint8_t\<close>.  Arithmetic on words wraps
  around as the unsigned arithmetic of C++ does.
\<close>

type_synonym u8 = "8 word"
type_synonym u64 = "64 word"
type_synonym u128 = "128 word"

section \<open>math\_utils.hpp\<close>

text \<open>\<open>pow2(x)\<close> is \<open>uint64_t(1) << x\<close>.\<close>

definition pow2 :: "nat \<Rightarrow> u64" where
  "pow2 x = push_bit x 1"

text \<open>
  \<open>std::bit_width(x)\<close>: zero for zero, otherwise one more than the position of the
  highest set bit.
\<close>

fun bit_width_nat :: "nat \<Rightarrow> nat" where
  "bit_width_nat n = (if n = 0 then 0 else Suc (bit_width_nat (n div 2)))"

declare bit_width_nat.simps [simp del]

definition bit_width :: "u64 \<Rightarrow> nat" where
  "bit_width x = bit_width_nat (unat x)"

text \<open>
  The loop \<open>while(e--)\<close> of \<open>isqrt_floor\<close>: the counter \<open>e\<close> starts at
  \<open>bit_width(x) >> 1\<close>, at most 32, and the body sees the decremented value.
\<close>

fun isqrt_loop :: "u64 \<Rightarrow> nat \<Rightarrow> u64 \<Rightarrow> u64" where
  "isqrt_loop x 0 r = r"
| "isqrt_loop x (Suc e) r =
     (let cur = drop_bit (e * 2) x;
          sm = push_bit 1 r;
          lg = sm + 1
      in isqrt_loop x e (sm + (if lg * lg \<le> cur then 1 else 0)))"

definition isqrt_floor :: "u64 \<Rightarrow> u64" where
  "isqrt_floor x =
     (if x < 4 then (if x > 0 then 1 else 0)
      else isqrt_loop x (bit_width x div 2) 1)"

definition isqrt_ceil :: "u64 \<Rightarrow> u64" where
  "isqrt_ceil x = (let r = isqrt_floor x in r + (if r * r < x then 1 else 0))"

definition SMALL_PRIMES :: "u8 list" where
  "SMALL_PRIMES =
    [1,2,3,5,7,11,13,17,19,23,29,31,37,41,43,47,53,59,61,67,71,73,79,83,89,97,101,
     103,107,109,113,127,131,137,139,149,151,157,163,167,173,179,181,191,193,197,199,
     211,223,227,229,233,239,241,251]"

definition NUM_SMALL_PRIMES :: nat where
  "NUM_SMALL_PRIMES = 55"

text \<open>
  The first loop of \<open>is_prime\<close>, over the table of small primes.  \<open>None\<close> is the early
  \<open>return false\<close>; \<open>Some i\<close> is the value of \<open>i\<close> when the loop is left.
\<close>

function small_loop :: "u64 \<Rightarrow> u64 \<Rightarrow> u64 \<Rightarrow> nat \<Rightarrow> u64 option" where
  "small_loop p m i j =
     (if i \<le> m \<and> j < NUM_SMALL_PRIMES - 1
      then (if p mod i = 0 then None
            else small_loop p m (ucast (SMALL_PRIMES ! Suc j)) (Suc j))
      else Some i)"
  by pat_completeness auto
termination
  by (relation "measure (\<lambda>(p, m, i, j). NUM_SMALL_PRIMES - 1 - j)") auto

declare small_loop.simps [simp del]

text \<open>
  The second loop of \<open>is_prime\<close>, the wheel over \<open>i\<close> and \<open>i + 2\<close> in steps of six.
  The result \<open>None\<close> stands for a run that does not return a value: a loop that never
  ends, or a remainder by zero.  The \<open>||\<close> of C++ evaluates its right operand only when
  the left one is false.
\<close>

partial_function (option) wheel_loop :: "u64 \<Rightarrow> u64 \<Rightarrow> u64 \<Rightarrow> bool option" where
  "wheel_loop p m i =
     (if i \<le> m
      then (if i = 0 then None
            else if p mod i = 0 then Some False
            else if i + 2 = 0 then None
            else if p mod (i + 2) = 0 then Some False
            else wheel_loop p m (i + 6))
      else Some True)"

declare wheel_loop.simps [code]

definition is_prime :: "u64 \<Rightarrow> bool option" where
  "is_prime p =
     (if p mod 2 = 0 then Some False
      else let m = isqrt_ceil p in
        (case small_loop p m (ucast (SMALL_PRIMES ! 2)) 2 of
           None \<Rightarrow> Some False
         | Some i \<Rightarrow> wheel_loop p m (5 + ((i - 5) div 6) * 6)))"

text \<open>The downward scan \<open>while(!is_prime(p)) p -= 2\<close> of \<open>prime_predecessor\<close>.\<close>

partial_function (option) prime_scan :: "u64 \<Rightarrow> u64 option" where
  "prime_scan p =
     Option.bind (is_prime p) (\<lambda>b. if b then Some p else prime_scan (p - 2))"

declare prime_scan.simps [code]

definition prime_predecessor :: "u64 \<Rightarrow> u64 option" where
  "prime_predecessor p =
     (if p = 0 then Some 0
      else if p = 2 then Some 2
      else prime_scan (if p mod 2 = 0 then p - 1 else p))"

section \<open>random\_permutation.hpp\<close>

record CommonUniverse =
  cu_universe :: u64
  cu_prime :: u64

definition UINT64_MAX :: u64 where
  "UINT64_MAX = 0xFFFFFFFFFFFFFFFF"

definition common_universes :: "CommonUniverse list" where
  "common_universes =
    [\<lparr>cu_universe = pow2 16 - 2, cu_prime = pow2 16 - 17\<rparr>,
     \<lparr>cu_universe = pow2 16 - 1, cu_prime = pow2 16 - 17\<rparr>,
     \<lparr>cu_universe = pow2 24 - 2, cu_prime = pow2 24 - 17\<rparr>,
     \<lparr>cu_universe = pow2 24 - 1, cu_prime = pow2 24 - 17\<rparr>,
     \<lparr>cu_universe = pow2 32 - 2, cu_prime = pow2 32 - 5\<rparr>,
     \<lparr>cu_universe = pow2 32 - 1, cu_prime = pow2 32 - 5\<rparr>,
     \<lparr>cu_universe = pow2 40 - 2, cu_prime = pow2 40 - 213\<rparr>,
     \<lparr>cu_universe = pow2 40 - 1, cu_prime = pow2 40 - 213\<rparr>,
     \<lparr>cu_universe = pow2 48 - 2, cu_prime = pow2 48 - 65\<rparr>,
     \<lparr>cu_universe = pow2 48 - 1, cu_prime = pow2 48 - 65\<rparr>,
     \<lparr>cu_universe = pow2 56 - 2, cu_prime = pow2 56 - 5\<rparr>,
     \<lparr>cu_universe = pow2 56 - 1, cu_prime = pow2 56 - 5\<rparr>,
     \<lparr>cu_universe = pow2 63 - 2, cu_prime = pow2 63 - 25\<rparr>,
     \<lparr>cu_universe = pow2 63 - 1, cu_prime = pow2 63 - 25\<rparr>,
     \<lparr>cu_universe = UINT64_MAX - 1, cu_prime = 0xFFFFFFFFFFFFFF43\<rparr>,
     \<lparr>cu_universe = UINT64_MAX, cu_prime = 0xFFFFFFFFFFFFFF43\<rparr>,
     \<lparr>cu_universe = 0, cu_prime = 0\<rparr>]"

definition SHUFFLE1 :: u64 where
  "SHUFFLE1 = 0x9696594B6A5936B2"

definition SHUFFLE2 :: u64 where
  "SHUFFLE2 = 0xD2165B4B66592AD6"

text \<open>
  The scan of the table in \<open>prev_prime_3mod4\<close>: it stops at the first entry whose prime
  is zero (the sentinel), and returns the prime of the first entry with the universe asked for.
\<close>

fun common_lookup :: "CommonUniverse list \<Rightarrow> u64 \<Rightarrow> u64 option" where
  "common_lookup [] u = None"
| "common_lookup (c # cs) u =
     (if cu_prime c > 0
      then (if u = cu_universe c then Some (cu_prime c) else common_lookup cs u)
      else None)"

text \<open>The loop \<open>while((p & 3) != 3) p = prime_predecessor(p - 1)\<close>.\<close>

partial_function (option) prev_prime_loop :: "u64 \<Rightarrow> u64 option" where
  "prev_prime_loop p =
     (if p AND 3 \<noteq> 3 then Option.bind (prime_predecessor (p - 1)) prev_prime_loop
      else Some p)"

declare prev_prime_loop.simps [code]

definition prev_prime_3mod4 :: "u64 \<Rightarrow> u64 option" where
  "prev_prime_3mod4 u =
     (case common_lookup common_universes u of
        Some q \<Rightarrow> Some q
      | None \<Rightarrow> Option.bind (prime_predecessor u) prev_prime_loop)"

record RandomPermutation =
  universe :: u64
  seed :: u64
  prime :: u64

definition permute :: "RandomPermutation \<Rightarrow> u64 \<Rightarrow> u64" where
  "permute P x =
     (if x \<ge> prime P then x
      else let r = (ucast (((ucast x :: u128) * (ucast x :: u128)) mod (ucast (prime P) :: u128)) :: u64)
           in if x \<le> drop_bit 1 (prime P) then r else prime P - r)"

text \<open>The default constructor and the constructor from a universe and a seed.\<close>

definition default_permutation :: RandomPermutation where
  "default_permutation = \<lparr>universe = 1, seed = 0, prime = 0\<rparr>"

definition make_permutation :: "u64 \<Rightarrow> u64 \<Rightarrow> RandomPermutation option" where
  "make_permutation u s =
     Option.bind (prev_prime_3mod4 u)
       (\<lambda>q. Some \<lparr>universe = u, seed = (s XOR SHUFFLE1) XOR SHUFFLE2, prime = q\<rparr>)"

text \<open>
  \<open>operator()\<close>, the public query.  The remainder by a universe of zero is undefined in
  C++ and is \<open>None\<close> here.
\<close>

definition permute_index :: "RandomPermutation \<Rightarrow> u64 \<Rightarrow> u64 option" where
  "permute_index P i =
     (if universe P = 0 then None
      else Some (permute P ((seed P + permute P i) mod universe P)))"

subsection \<open>The iterator\<close>

text \<open>
  The iterator holds a pointer to its permutation, an index and the overflow flag; its
  equality compares all three.  The permutation stands for the pointer to it.
\<close>

record Iterator =
  perm :: RandomPermutation
  it_x :: u64
  overflow :: bool

definition iterator_at :: "RandomPermutation \<Rightarrow> u64 \<Rightarrow> Iterator" where
  "iterator_at P x = \<lparr>perm = P, it_x = x, overflow = (x > universe P)\<rparr>"

definition begin_it :: "RandomPermutation \<Rightarrow> Iterator" where
  "begin_it P = iterator_at P 0"

definition end_it :: "RandomPermutation \<Rightarrow> Iterator" where
  "end_it P = \<lparr>perm = P, it_x = universe P + 1, overflow = True\<rparr>"

definition deref :: "Iterator \<Rightarrow> u64 option" where
  "deref it = permute_index (perm it) (it_x it)"

definition incr :: "Iterator \<Rightarrow> Iterator" where
  "incr it = it\<lparr>overflow := (it_x it = universe (perm it)), it_x := it_x it + 1\<rparr>"

text \<open>
  The loop \<open>for(it = begin(); it != end(); ++it) use(*it)\<close>, which is what a ranged
  \<open>for\<close> over a permutation runs.  It returns the indices dereferenced and the values
  read, in order.
\<close>

partial_function (option) iterate_from :: "Iterator \<Rightarrow> Iterator \<Rightarrow> (u64 \<times> u64) list \<Rightarrow> (u64 \<times> u64) list option" where
  "iterate_from e it acc =
     (if it = e then Some (rev acc)
      else Option.bind (deref it) (\<lambda>v. iterate_from e (incr it) ((it_x it, v) # acc)))"

declare iterate_from.simps [code]

definition iterate_all :: "RandomPermutation \<Rightarrow> (u64 \<times> u64) list option" where
  "iterate_all P = iterate_from (end_it P) (begin_it P) []"

section \<open>Reference notions\<close>

text \<open>
  Primality of a natural number, as in the textbook: more than one, and divisible only
  by one and itself.  The claims about the prime search are stated against it.
\<close>

definition prime_nat :: "nat \<Rightarrow> bool" where
  "prime_nat p \<longleftrightarrow> 1 < p \<and> (\<forall>d. d dvd p \<longrightarrow> d = 1 \<or> d = p)"

text \<open>
  The quadratic-residue step on natural numbers below \<open>p\<close>: the square modulo \<open>p\<close>
  for the lower half, its reflection \<open>p - r\<close> for the upper half.
\<close>

definition qr_step :: "nat \<Rightarrow> nat \<Rightarrow> nat" where
  "qr_step p x = (if x \<le> p div 2 then x * x mod p else p - x * x mod p)"

text \<open>The entry of the table of small primes at an index, as a natural number.\<close>

definition small_prime :: "nat \<Rightarrow> nat" where
  "small_prime k = unat (SMALL_PRIMES ! k)"

section \<open>Properties\<close>

subsection \<open>Primes and Fermat's little theorem\<close>
lemma prime_nat_coprime:
  assumes "prime_nat p" and "\<not> p dvd a"
  shows "coprime p a"
proof -
  have "gcd p a dvd p" by simp
  with assms(1) have "gcd p a = 1 \<or> gcd p a = p"
    unfolding prime_nat_def by blast
  moreover have "gcd p a \<noteq> p"
  proof
    assume "gcd p a = p"
    then have "p dvd a" by (metis gcd_dvd2)
    with assms(2) show False by contradiction
  qed
  ultimately show ?thesis by (simp add: coprime_iff_gcd_eq_1)
qed

lemma prime_nat_dvd_mult:
  assumes "prime_nat p" and "p dvd a * b"
  shows "p dvd a \<or> p dvd b"
proof (cases "p dvd a")
  case True
  then show ?thesis by simp
next
  case False
  with assms(1) have "coprime p a" by (rule prime_nat_coprime)
  with assms(2) have "p dvd b" by (simp add: coprime_dvd_mult_right_iff)
  then show ?thesis by simp
qed

lemma prime_nat_dvd_power:
  assumes "prime_nat p" and "p dvd a ^ n"
  shows "p dvd a"
  using assms(2)
proof (induction n)
  case 0
  then have "p = 1" by simp
  with assms(1) show ?case by (simp add: prime_nat_def)
next
  case (Suc n)
  then have "p dvd a * a ^ n" by simp
  with assms(1) have "p dvd a \<or> p dvd a ^ n" by (rule prime_nat_dvd_mult)
  with Suc.IH show ?case by blast
qed

lemma prime_nat_dvd_prod:
  assumes "prime_nat p" and "finite A" and "p dvd prod f A"
  shows "\<exists>x\<in>A. p dvd f x"
  using assms(2,3)
proof (induction A rule: finite_induct)
  case empty
  then have "p = 1" by simp
  with assms(1) show ?case by (simp add: prime_nat_def)
next
  case (insert x F)
  then have "p dvd f x * prod f F" by simp
  with assms(1) have "p dvd f x \<or> p dvd prod f F" by (rule prime_nat_dvd_mult)
  with insert.IH show ?case by blast
qed

lemma prime_nat_not_dvd_less:
  assumes "prime_nat p" and "0 < k" and "k < p"
  shows "\<not> p dvd k"
  using assms by (auto dest: dvd_imp_le)

lemma fermat_little:
  assumes p: "prime_nat p" and a: "\<not> p dvd a"
  shows "a ^ (p - 1) mod p = 1"
proof -
  define S where "S = {1..<p}"
  define f where "f k = a * k mod p" for k
  have p1: "1 < p" using p by (simp add: prime_nat_def)
  have nd: "\<not> p dvd a * k" if "k \<in> S" for k
  proof
    assume "p dvd a * k"
    with p have "p dvd a \<or> p dvd k" by (rule prime_nat_dvd_mult)
    with a have "p dvd k" by simp
    moreover from that have "0 < k" "k < p" by (simp_all add: S_def)
    ultimately show False using prime_nat_not_dvd_less [OF p] by blast
  qed
  have sub: "f ` S \<subseteq> S"
  proof
    fix y assume "y \<in> f ` S"
    then obtain k where k: "k \<in> S" and y: "y = a * k mod p" by (auto simp: f_def)
    from nd [OF k] have "y \<noteq> 0" by (simp add: y dvd_eq_mod_eq_0)
    moreover have "y < p" using p1 by (simp add: y)
    ultimately show "y \<in> S" by (simp add: S_def)
  qed
  have inj_aux: "k = l" if "k \<in> S" "l \<in> S" "f k = f l" "k \<le> l" for k l
  proof -
    from that(4) have "a * k \<le> a * l" by simp
    moreover from that(3) have "a * l mod p = a * k mod p" by (simp add: f_def)
    ultimately have "p dvd a * l - a * k"
      by (simp add: mod_eq_dvd_iff_nat)
    then have "p dvd a * (l - k)" by (simp add: diff_mult_distrib2)
    with p have "p dvd a \<or> p dvd l - k" by (rule prime_nat_dvd_mult)
    with a have d: "p dvd l - k" by simp
    have "l - k < p" using that(2) by (auto simp: S_def)
    with d have "l - k = 0" using prime_nat_not_dvd_less [OF p, of "l - k"] by auto
    with that(4) show ?thesis by simp
  qed
  have inj: "inj_on f S"
  proof (rule inj_onI)
    fix k l assume "k \<in> S" "l \<in> S" "f k = f l"
    then show "k = l"
      using inj_aux [of k l] inj_aux [of l k] by (cases "k \<le> l") auto
  qed
  have fin: "finite S" by (simp add: S_def)
  from endo_inj_surj [OF fin sub inj] inj have "bij_betw f S S"
    by (simp add: bij_betw_def)
  then have "(\<Prod>x\<in>S. f x) = (\<Prod>x\<in>S. x)"
    by (rule prod.reindex_bij_betw)
  then have "(\<Prod>x\<in>S. a * x mod p) mod p = (\<Prod>x\<in>S. x) mod p"
    by (simp add: f_def)
  then have "(\<Prod>x\<in>S. a * x) mod p = (\<Prod>x\<in>S. x) mod p"
    by (simp add: mod_prod_eq)
  moreover have "(\<Prod>x\<in>S. a * x) = a ^ (p - 1) * (\<Prod>x\<in>S. x)"
    by (simp add: prod.distrib S_def)
  ultimately have eq: "(a ^ (p - 1) * \<Prod>S) mod p = \<Prod>S mod p"
    by simp
  have a0: "0 < a" using a by (cases "a = 0") auto
  then have "1 \<le> a ^ (p - 1)" by simp
  then have "\<Prod>S \<le> a ^ (p - 1) * \<Prod>S" by simp
  with eq have "p dvd a ^ (p - 1) * \<Prod>S - \<Prod>S"
    by (simp add: mod_eq_dvd_iff_nat)
  then have "p dvd (a ^ (p - 1) - 1) * \<Prod>S"
    by (simp add: diff_mult_distrib)
  with p have "p dvd a ^ (p - 1) - 1 \<or> p dvd \<Prod>S" by (rule prime_nat_dvd_mult)
  moreover have "\<not> p dvd \<Prod>S"
  proof
    assume "p dvd \<Prod>S"
    with p fin have "\<exists>x\<in>S. p dvd x" by (rule prime_nat_dvd_prod)
    then show False using prime_nat_not_dvd_less [OF p] by (auto simp: S_def)
  qed
  ultimately have "p dvd a ^ (p - 1) - 1" by simp
  with \<open>1 \<le> a ^ (p - 1)\<close> have "a ^ (p - 1) mod p = 1 mod p"
    using mod_eq_dvd_iff_nat [of 1 "a ^ (p - 1)" p] by blast
  with p1 show ?thesis by simp
qed


lemma fermat_little_int:
  assumes "prime_nat p" and "\<not> p dvd a"
  shows "int a ^ (p - 1) mod int p = 1"
proof -
  have "int (a ^ (p - 1) mod p) = 1"
    using fermat_little [OF assms] by simp
  then show ?thesis by (simp add: zmod_int)
qed

lemma sum_squares_not_dvd:
  assumes p: "prime_nat p" and p4: "p mod 4 = 3" and y: "\<not> p dvd y"
  shows "\<not> p dvd x * x + y * y"
proof
  assume d: "p dvd x * x + y * y"
  have x: "\<not> p dvd x"
  proof
    assume "p dvd x"
    then have "p dvd x * x" by simp
    with d have "p dvd y * y" using dvd_add_right_iff by blast
    with p have "p dvd y" using prime_nat_dvd_mult by blast
    with y show False by contradiction
  qed
  define k where "k = p div 4"
  have pk: "p - 1 = 2 * (2 * k + 1)" using p4 by (simp add: k_def) presburger
  have "int p dvd int x ^ 2 - (- (int y ^ 2))"
  proof -
    have "int p dvd int (x * x + y * y)" using d by (simp only: int_dvd_int_iff)
    then show ?thesis by (simp add: power2_eq_square)
  qed
  then have "int x ^ 2 mod int p = (- (int y ^ 2)) mod int p"
    by (simp only: mod_eq_dvd_iff)
  then have "(int x ^ 2) ^ (2 * k + 1) mod int p = (- (int y ^ 2)) ^ (2 * k + 1) mod int p"
    by (metis power_mod)
  moreover have "(int x ^ 2) ^ (2 * k + 1) = int x ^ (p - 1)"
    by (simp only: pk power_mult)
  moreover have "(- (int y ^ 2)) ^ (2 * k + 1) = - (int y ^ (p - 1))"
  proof -
    have "odd (2 * k + 1)" by simp
    then have "(- (int y ^ 2)) ^ (2 * k + 1) = - ((int y ^ 2) ^ (2 * k + 1))"
      by (rule power_minus_odd)
    also have "(int y ^ 2) ^ (2 * k + 1) = int y ^ (p - 1)"
      by (simp only: pk power_mult)
    finally show ?thesis .
  qed
  ultimately have "int x ^ (p - 1) mod int p = (- (int y ^ (p - 1))) mod int p"
    by simp
  then have "1 = (- (int y ^ (p - 1))) mod int p"
    by (simp only: fermat_little_int [OF p x])
  also have "\<dots> = (- (int y ^ (p - 1) mod int p)) mod int p"
    by (simp only: mod_minus_eq)
  also have "\<dots> = (- 1) mod int p"
    by (simp only: fermat_little_int [OF p y])
  finally have "1 mod int p = (- 1) mod int p"
    by (metis mod_mod_trivial)
  then have "int p dvd 1 - (- 1)"
    by (simp only: mod_eq_dvd_iff)
  then have "int p dvd int 2" by simp
  then have "p dvd 2" by (simp only: int_dvd_int_iff)
  then have "p \<le> 2" by (rule dvd_imp_le) simp
  with p4 show False by presburger
qed


lemma square_mod_eq_dvd:
  assumes p: "prime_nat p" and "x \<le> y" and "x * x mod p = y * y mod p"
  shows "p dvd y - x \<or> p dvd y + x"
proof -
  obtain d where y: "y = x + d" using assms(2) by (auto simp: le_iff_add)
  have "x * x \<le> y * y" using assms(2) by (simp add: mult_le_mono)
  with assms(3) have "p dvd y * y - x * x"
    using mod_eq_dvd_iff_nat [of "x * x" "y * y" p] by simp
  moreover have "y * y - x * x = (y - x) * (y + x)"
    by (simp add: y algebra_simps)
  ultimately have "p dvd (y - x) * (y + x)" by simp
  with p show ?thesis by (rule prime_nat_dvd_mult)
qed

lemma qr_step_less:
  assumes p: "prime_nat p" and x: "x < p"
  shows "qr_step p x < p"
proof (cases "x \<le> p div 2")
  case True
  with x show ?thesis by (simp add: qr_step_def)
next
  case False
  then have "0 < x" by simp
  with p x have "\<not> p dvd x" by (simp add: prime_nat_not_dvd_less)
  then have "\<not> p dvd x * x" using prime_nat_dvd_mult [OF p] by blast
  then have "0 < x * x mod p" by (simp add: dvd_eq_mod_eq_0)
  with x False show ?thesis by (simp add: qr_step_def)
qed

lemma qr_step_inj_le:
  assumes p: "prime_nat p" and p4: "p mod 4 = 3"
    and xy: "x \<le> y" and y: "y < p" and eq: "qr_step p x = qr_step p y"
  shows "x = y"
proof -
  have odd: "2 * (p div 2) + 1 = p" using p4 by presburger
  have ndvd: "\<not> p dvd k" if "0 < k" "k < p" for k
    using p that by (rule prime_nat_not_dvd_less)
  consider (low) "y \<le> p div 2" | (high) "p div 2 < x" | (mixed) "x \<le> p div 2" "p div 2 < y"
    using xy by linarith
  then show ?thesis
  proof cases
    case low
    with xy eq have "x * x mod p = y * y mod p" by (simp add: qr_step_def)
    with p xy have "p dvd y - x \<or> p dvd y + x" by (rule square_mod_eq_dvd)
    moreover have "y - x < p" using y by simp
    moreover have "y + x < p" using low xy odd by linarith
    ultimately have "y - x = 0 \<or> y + x = 0" using ndvd by (metis not_gr_zero)
    with xy show ?thesis by auto
  next
    case high
    have "x * x mod p < p" "y * y mod p < p" using y by simp_all
    moreover from high xy eq have "p - x * x mod p = p - y * y mod p"
      by (simp add: qr_step_def)
    ultimately have "x * x mod p = y * y mod p" by linarith
    with p xy have "p dvd y - x \<or> p dvd y + x" by (rule square_mod_eq_dvd)
    moreover have "y - x < p" using y by simp
    moreover have "p < y + x" "y + x < p + p" using high xy y odd by linarith+
    moreover have "\<not> p dvd y + x"
    proof
      assume "p dvd y + x"
      then obtain c where c: "y + x = p * c" by (auto simp: dvd_def)
      have "c \<le> 1 \<or> 2 \<le> c" by linarith
      then show False
      proof
        assume "c \<le> 1"
        then have "p * c \<le> p * 1" by (rule mult_le_mono2)
        with c \<open>p < y + x\<close> show False by simp
      next
        assume "2 \<le> c"
        then have "p * 2 \<le> p * c" by (rule mult_le_mono2)
        with c \<open>y + x < p + p\<close> show False by simp
      qed
    qed
    ultimately have "y - x = 0" using ndvd by (metis not_gr_zero)
    with xy show ?thesis by simp
  next
    case mixed
    then have "0 < y" by simp
    then have ny: "\<not> p dvd y" using y by (rule ndvd)
    have "y * y mod p < p" using y by simp
    moreover from mixed eq have "x * x mod p = p - y * y mod p"
      by (simp add: qr_step_def)
    ultimately have "x * x mod p + y * y mod p = p" by simp
    then have "(x * x mod p + y * y mod p) mod p = 0" by simp
    then have "(x * x + y * y) mod p = 0" by (simp only: mod_add_eq)
    then have "p dvd x * x + y * y" by (simp add: dvd_eq_mod_eq_0)
    with sum_squares_not_dvd [OF p p4 ny] show ?thesis by blast
  qed
qed

lemma qr_step_inj:
  assumes "prime_nat p" and "p mod 4 = 3"
  shows "inj_on (qr_step p) {..<p}"
proof (rule inj_onI)
  fix x y assume "x \<in> {..<p}" "y \<in> {..<p}" "qr_step p x = qr_step p y"
  then show "x = y"
    using qr_step_inj_le [OF assms, of x y] qr_step_inj_le [OF assms, of y x]
    by (cases "x \<le> y") auto
qed

subsection \<open>The quadratic-residue step on words\<close>

lemma unat_ucast_64_128:
  fixes x :: u64
  shows "unat (ucast x :: u128) = unat x"
proof -
  have "unat x < 2 ^ 64" using unsigned_less [of x] by simp
  then have "unat x < 2 ^ 128" by simp
  then show ?thesis
    by (simp add: unsigned_ucast_eq take_bit_nat_eq_self)
qed

lemma unat_ucast_128_64:
  fixes w :: u128
  assumes "unat w < 2 ^ 64"
  shows "unat (ucast w :: u64) = unat w"
  using assms by (simp add: unsigned_ucast_eq take_bit_nat_eq_self)

lemma unat_square_wide:
  fixes x :: u64
  shows "unat ((ucast x :: u128) * (ucast x :: u128)) = unat x * unat x"
proof -
  have "unat x < 2 ^ 64" using unsigned_less [of x] by simp
  then have "unat x * unat x < 2 ^ 64 * 2 ^ 64"
    by (intro mult_strict_mono) simp_all
  then have "unat x * unat x < 2 ^ 128" by simp
  then show ?thesis
    by (simp add: unat_word_ariths unat_ucast_64_128)
qed

lemma permute_unat:
  assumes "x < prime P"
  shows "unat (permute P x) = qr_step (unat (prime P)) (unat x)"
proof -
  let ?q = "prime P"
  let ?r = "(ucast (((ucast x :: u128) * (ucast x :: u128)) mod (ucast ?q :: u128)) :: u64)"
  have q0: "0 < unat ?q" using assms by (simp add: word_less_nat_alt)
  have w: "unat (((ucast x :: u128) * (ucast x :: u128)) mod (ucast ?q :: u128)) = unat x * unat x mod unat ?q"
    by (simp add: unat_mod unat_square_wide unat_ucast_64_128)
  have lt: "unat x * unat x mod unat ?q < unat ?q" using q0 by simp
  have q64: "unat ?q < 2 ^ 64" using unsigned_less [of ?q] by simp
  have r: "unat ?r = unat x * unat x mod unat ?q"
    using lt q64 by (simp add: unat_ucast_128_64 w)
  have half: "x \<le> drop_bit 1 ?q \<longleftrightarrow> unat x \<le> unat ?q div 2"
    by (simp add: word_le_nat_alt unat_drop_bit_eq drop_bit_eq_div unat_div)
  have rle: "?r \<le> ?q" using r lt by (simp add: word_le_nat_alt)
  have sub: "unat (?q - ?r) = unat ?q - unat x * unat x mod unat ?q"
    using rle r by (simp add: unat_sub)
  show ?thesis
    using assms r sub half
    by (simp add: permute_def qr_step_def Let_def not_le [symmetric] del: not_le)
qed

subsection \<open>The one-phase step is a bijection below the prime\<close>

lemma prime_nat_code [code]:
  "prime_nat p \<longleftrightarrow> 1 < p \<and> (\<forall>d\<in>set [2..<p]. \<not> d dvd p)"
proof -
  have "d = 1 \<or> d = p" if "1 < p" "\<forall>d\<in>{2..<p}. \<not> d dvd p" "d dvd p" for d
  proof -
    from that(1,3) have "d \<le> p" "d \<noteq> 0" by (auto dest: dvd_imp_le intro: Nat.gr0I)
    with that(2,3) show ?thesis by (cases "d = 1"; cases "d = p") auto
  qed
  then show ?thesis by (auto simp: prime_nat_def)
qed

lemma prime_nat_7: "prime_nat 7"
  by code_simp

text \<open>
  C5.  When the prime field of a permutation is a prime number congruent to 3 modulo 4,
  \<open>permute\<close> maps every \<open>x\<close> below the prime to \<open>x * x mod p\<close> if \<open>x \<le> p div 2\<close> and to
  \<open>p - x * x mod p\<close> otherwise (this is \<open>qr_step\<close>), and it is a bijection of the
  values below the prime onto themselves.
\<close>

theorem permute_bijection:
  assumes "prime_nat (unat (prime P))" and "unat (prime P) mod 4 = 3"
  shows "(\<forall>x. x < prime P \<longrightarrow> unat (permute P x) = qr_step (unat (prime P)) (unat x))
       \<and> bij_betw (permute P) {x. x < prime P} {x. x < prime P}"
proof -
  let ?q = "prime P"
  let ?S = "{x. x < ?q}"
  have fin: "finite ?S" by simp
  have sub: "permute P ` ?S \<subseteq> ?S"
  proof
    fix y assume "y \<in> permute P ` ?S"
    then obtain x where x: "x < ?q" and y: "y = permute P x" by auto
    from x have "unat x < unat ?q" by (simp add: word_less_nat_alt)
    with assms(1) have "qr_step (unat ?q) (unat x) < unat ?q" by (rule qr_step_less)
    with x have "unat (permute P x) < unat ?q" by (simp add: permute_unat)
    then show "y \<in> ?S" by (simp add: y word_less_nat_alt)
  qed
  have inj: "inj_on (permute P) ?S"
  proof (rule inj_onI)
    fix x y assume "x \<in> ?S" "y \<in> ?S" "permute P x = permute P y"
    then have x: "x < ?q" and y: "y < ?q"
      and "unat (permute P x) = unat (permute P y)" by simp_all
    then have "qr_step (unat ?q) (unat x) = qr_step (unat ?q) (unat y)"
      by (simp add: permute_unat)
    moreover have "unat x \<in> {..<unat ?q}" "unat y \<in> {..<unat ?q}"
      using x y by (simp_all add: word_less_nat_alt)
    ultimately have "unat x = unat y"
      using qr_step_inj [OF assms] by (auto dest: inj_onD)
    then show "x = y" by (rule word_unat_eq_iff [THEN iffD2])
  qed
  from endo_inj_surj [OF fin sub inj] inj have "bij_betw (permute P) ?S ?S"
    by (simp add: bij_betw_def)
  then show ?thesis by (simp add: permute_unat)
qed

theorem permute_bijection_witness:
  "prime_nat (unat (prime \<lparr>universe = 10, seed = 0, prime = 7\<rparr>))
   \<and> unat (prime \<lparr>universe = 10, seed = 0, prime = 7\<rparr>) mod 4 = 3
   \<and> unat (permute \<lparr>universe = 10, seed = 0, prime = 7\<rparr> 5) = qr_step 7 5
   \<and> bij_betw (permute \<lparr>universe = 10, seed = 0, prime = 7\<rparr>) {x. x < 7} {x. x < 7}"
proof -
  have a: "prime_nat (unat (prime \<lparr>universe = 10, seed = 0, prime = 7\<rparr>))"
    using prime_nat_7 by simp
  have b: "unat (prime \<lparr>universe = 10, seed = 0, prime = 7\<rparr>) mod 4 = 3" by simp
  show ?thesis
    using a b permute_bijection [OF a b] by simp
qed

subsection \<open>The two-phase query\<close>



subsection \<open>The integer square root as a bound\<close>

lemma bit_width_nat_upper: "n < 2 ^ bit_width_nat n"
proof (induction n rule: bit_width_nat.induct)
  case (1 n)
  show ?case
  proof (cases "n = 0")
    case True
    then show ?thesis by (simp add: bit_width_nat.simps)
  next
    case False
    with 1 have "n div 2 < 2 ^ bit_width_nat (n div 2)" by simp
    then have "n < 2 * 2 ^ bit_width_nat (n div 2)" by linarith
    with False show ?thesis by (subst bit_width_nat.simps) simp
  qed
qed

lemma bit_width_nat_lower: "0 < n \<Longrightarrow> 2 ^ (bit_width_nat n - 1) \<le> n"
proof (induction n rule: bit_width_nat.induct)
  case (1 n)
  then have n: "n \<noteq> 0" by simp
  show ?case
  proof (cases "n div 2 = 0")
    case True
    with n show ?thesis
      by (subst bit_width_nat.simps) (simp add: bit_width_nat.simps [of 0])
  next
    case False
    with 1 n have ih: "2 ^ (bit_width_nat (n div 2) - 1) \<le> n div 2" by simp
    from False have "bit_width_nat (n div 2) \<noteq> 0"
      by (subst bit_width_nat.simps) simp
    then obtain b where b: "bit_width_nat (n div 2) = Suc b" by (cases "bit_width_nat (n div 2)") auto
    with ih have "2 * 2 ^ b \<le> 2 * (n div 2)" by simp
    also have "\<dots> \<le> n" by simp
    finally show ?thesis using n b by (subst bit_width_nat.simps) simp
  qed
qed

lemma bit_width_nat_le: "n < 2 ^ k \<Longrightarrow> bit_width_nat n \<le> k"
proof (rule ccontr)
  assume lt: "n < 2 ^ k" and "\<not> bit_width_nat n \<le> k"
  then have k: "k \<le> bit_width_nat n - 1" and pos: "0 < bit_width_nat n" by simp_all
  from pos have "0 < n" by (cases "n = 0") (simp_all add: bit_width_nat.simps)
  then have "2 ^ (bit_width_nat n - 1) \<le> n" by (rule bit_width_nat_lower)
  moreover from k have "(2::nat) ^ k \<le> 2 ^ (bit_width_nat n - 1)" by (rule power_increasing) simp
  ultimately show False using lt by linarith
qed

lemma bit_width_le_64: "bit_width x \<le> 64"
  unfolding bit_width_def using unsigned_less [of x, where 'a = nat]
  by (intro bit_width_nat_le) simp

lemma unat_double_plus:
  fixes r :: u64
  assumes "unat r < 2 ^ k" and "k \<le> 62"
  shows "unat (push_bit 1 r + (if c then 1 else 0)) = 2 * unat r + (if c then 1 else 0)"
    and "unat (push_bit 1 r + 1) = 2 * unat r + 1"
    and "unat (push_bit 1 r) = 2 * unat r"
proof -
  have "(2::nat) ^ k \<le> 2 ^ 62" using assms(2) by (rule power_increasing) simp
  with assms(1) have r: "unat r < 2 ^ 62" by simp
  have "unat (push_bit 1 r) = take_bit 64 (push_bit 1 (unat r))"
    by (simp only: unsigned_push_bit_eq) simp
  also have "push_bit 1 (unat r) = 2 * unat r"
    by (simp add: push_bit_eq_mult)
  also have "take_bit 64 (2 * unat r) = 2 * unat r"
    using r by (intro take_bit_nat_eq_self) simp
  finally show d: "unat (push_bit 1 r) = 2 * unat r" .
  from r show "unat (push_bit 1 r + 1) = 2 * unat r + 1"
    by (simp add: unat_word_ariths d)
  from r show "unat (push_bit 1 r + (if c then 1 else 0)) = 2 * unat r + (if c then 1 else 0)"
    by (simp add: unat_word_ariths d)
qed

lemma isqrt_loop_upper:
  assumes "unat r < 2 ^ k" and "k + e \<le> 63"
  shows "unat (isqrt_loop x e r) < 2 ^ (k + e)"
  using assms
proof (induction e arbitrary: r k)
  case 0
  then show ?case by simp
next
  case (Suc e)
  let ?c = "(push_bit 1 r + 1) * (push_bit 1 r + 1) \<le> drop_bit (e * 2) x"
  let ?r' = "push_bit 1 r + (if ?c then 1 else 0)"
  from Suc.prems have k: "k \<le> 62" by simp
  have "unat ?r' = 2 * unat r + (if ?c then 1 else 0)"
    using Suc.prems(1) k by (rule unat_double_plus)
  also have "\<dots> < 2 ^ Suc k" using Suc.prems(1) by simp
  finally have "unat (isqrt_loop x e ?r') < 2 ^ (Suc k + e)"
    using Suc.prems(2) by (intro Suc.IH) simp_all
  then show ?case by (simp add: Let_def)
qed

lemma isqrt_loop_lower:
  assumes "unat x div 4 ^ e < (unat r + 1) * (unat r + 1)" and "unat r < 2 ^ k" and "k + e \<le> 63"
  shows "unat x < (unat (isqrt_loop x e r) + 1) * (unat (isqrt_loop x e r) + 1)"
  using assms
proof (induction e arbitrary: r k)
  case 0
  then show ?case by simp
next
  case (Suc e)
  let ?cur = "drop_bit (e * 2) x"
  let ?lg = "push_bit 1 r + 1"
  let ?c = "?lg * ?lg \<le> ?cur"
  let ?r' = "push_bit 1 r + (if ?c then 1 else 0)"
  from Suc.prems have k: "k \<le> 62" by simp
  have r': "unat ?r' = 2 * unat r + (if ?c then 1 else 0)"
    using Suc.prems(2) k by (rule unat_double_plus)
  have lg: "unat ?lg = 2 * unat r + 1"
    using Suc.prems(2) k by (rule unat_double_plus)
  have pw: "(2::nat) ^ (e * 2) = 4 ^ e"
    by (simp add: mult.commute [of e 2] power_mult)
  have "unat ?cur = drop_bit (e * 2) (unat x)" by (rule unat_drop_bit_eq)
  also have "\<dots> = unat x div 2 ^ (e * 2)" by (rule drop_bit_eq_div)
  finally have cur: "unat ?cur = unat x div 4 ^ e" by (simp only: pw)
  have "unat x div 4 ^ e div 4 = unat x div 4 ^ Suc e"
    by (metis div_mult2_eq mult.commute power_Suc)
  then have "unat x div 4 ^ e div 4 < (unat r + 1) * (unat r + 1)"
    using Suc.prems(1) by (simp only:)
  then have up: "unat x div 4 ^ e < 4 * ((unat r + 1) * (unat r + 1))"
    by linarith
  have "unat x div 4 ^ e < (unat ?r' + 1) * (unat ?r' + 1)"
  proof (cases ?c)
    case True
    with r' have "unat ?r' + 1 = 2 * (unat r + 1)" by simp
    then have "(unat ?r' + 1) * (unat ?r' + 1) = 4 * ((unat r + 1) * (unat r + 1))"
      by (simp only:)
    with up show ?thesis by simp
  next
    case False
    then have "unat ?cur < unat (?lg * ?lg)" by (simp add: word_le_nat_alt)
    also have "\<dots> \<le> unat ?lg * unat ?lg" by (simp add: unat_word_ariths)
    finally show ?thesis using False r' lg cur by simp
  qed
  moreover have "unat ?r' < 2 ^ Suc k" using r' Suc.prems(2) by simp
  ultimately have "unat x < (unat (isqrt_loop x e ?r') + 1) * (unat (isqrt_loop x e ?r') + 1)"
    using Suc.prems(3) by (intro Suc.IH [of ?r' "Suc k"]) simp_all
  then show ?case by (simp add: Let_def)
qed

lemma bit_width_bounds:
  "unat x < 2 ^ bit_width x" "x \<noteq> 0 \<Longrightarrow> 2 ^ (bit_width x - 1) \<le> unat x"
proof -
  show "unat x < 2 ^ bit_width x"
    unfolding bit_width_def by (rule bit_width_nat_upper)
  assume "x \<noteq> 0"
  then have "0 < unat x" by (simp add: unat_gt_0)
  then show "2 ^ (bit_width x - 1) \<le> unat x"
    unfolding bit_width_def by (rule bit_width_nat_lower)
qed

lemma isqrt_floor_bounds:
  "unat x < (unat (isqrt_floor x) + 1) * (unat (isqrt_floor x) + 1)"
  "unat (isqrt_floor x) < 2 ^ (1 + bit_width x div 2)"
proof -
  let ?e = "bit_width x div 2"
  have e: "1 + ?e \<le> 63" using bit_width_le_64 [of x] by simp
  have one: "unat (1 :: u64) < 2 ^ 1" by simp
  have "unat x < 2 ^ bit_width x" by (rule bit_width_bounds)
  also have "(2::nat) ^ bit_width x \<le> 2 ^ (2 * ?e + 1)"
    by (rule power_increasing) simp_all
  also have "(2::nat) ^ (2 * ?e + 1) = 2 * 4 ^ ?e" by (simp add: power_mult)
  finally have "unat x div 4 ^ ?e < 2" by (simp add: less_mult_imp_div_less mult.commute)
  then have start: "unat x div 4 ^ ?e < (unat (1 :: u64) + 1) * (unat (1 :: u64) + 1)"
    by simp
  show "unat x < (unat (isqrt_floor x) + 1) * (unat (isqrt_floor x) + 1)"
  proof (cases "x < 4")
    case True
    then have "unat x < 4" by (simp add: word_less_nat_alt)
    then show ?thesis by (auto simp: isqrt_floor_def True word_greater_zero_iff)
  next
    case False
    then show ?thesis
      using isqrt_loop_lower [OF start one e] by (simp add: isqrt_floor_def)
  qed
  show "unat (isqrt_floor x) < 2 ^ (1 + bit_width x div 2)"
  proof (cases "x < 4")
    case True
    have "(1::nat) \<le> 2 ^ ?e" by simp
    then have "(1::nat) < 2 * 2 ^ ?e" by linarith
    then show ?thesis by (simp add: isqrt_floor_def True)
  next
    case False
    then show ?thesis
      using isqrt_loop_upper [OF one e] by (simp add: isqrt_floor_def)
  qed
qed

lemma isqrt_ceil_bounds:
  "unat p \<le> unat (isqrt_ceil p) * unat (isqrt_ceil p)"
  "unat (isqrt_ceil p) \<le> 2 ^ (1 + bit_width p div 2)"
proof -
  let ?r = "isqrt_floor p"
  have "1 + bit_width p div 2 \<le> 33" using bit_width_le_64 [of p] by simp
  then have "(2::nat) ^ (1 + bit_width p div 2) \<le> 2 ^ 33" by (rule power_increasing) simp
  with isqrt_floor_bounds(2) [of p] have r33: "unat ?r < 2 ^ 33" by simp
  then have r1: "unat (?r + 1) = unat ?r + 1" by (simp add: unat_word_ariths)
  show "unat p \<le> unat (isqrt_ceil p) * unat (isqrt_ceil p)"
  proof (cases "?r * ?r < p")
    case True
    then show ?thesis
      using isqrt_floor_bounds(1) [of p] r1 by (simp add: isqrt_ceil_def Let_def)
  next
    case False
    then have "unat p \<le> unat (?r * ?r)" by (simp add: word_le_nat_alt not_less)
    also have "\<dots> \<le> unat ?r * unat ?r" by (simp add: unat_word_ariths)
    finally show ?thesis using False by (simp add: isqrt_ceil_def Let_def)
  qed
  show "unat (isqrt_ceil p) \<le> 2 ^ (1 + bit_width p div 2)"
    using isqrt_floor_bounds(2) [of p] r1 by (simp add: isqrt_ceil_def Let_def)
qed

lemma isqrt_ceil_le: "unat (isqrt_ceil p) \<le> 2 ^ 33"
proof -
  have "1 + bit_width p div 2 \<le> 33" using bit_width_le_64 [of p] by simp
  then have "(2::nat) ^ (1 + bit_width p div 2) \<le> 2 ^ 33" by (rule power_increasing) simp
  with isqrt_ceil_bounds(2) [of p] show ?thesis by simp
qed

lemma isqrt_ceil_below:
  assumes "32 \<le> unat p"
  shows "unat (isqrt_ceil p) + 2 < unat p" and "6 \<le> unat (isqrt_ceil p)"
proof -
  let ?b = "bit_width p"
  have p0: "p \<noteq> 0" using assms by auto
  have "6 \<le> ?b"
  proof (rule ccontr)
    assume "\<not> 6 \<le> ?b"
    then have "?b \<le> 5" by simp
    then have "(2::nat) ^ ?b \<le> 2 ^ 5" by (rule power_increasing) simp
    with bit_width_bounds(1) [of p] assms show False by simp
  qed
  then obtain c where c: "?b = c + 6" by (metis add.commute le_Suc_ex)
  have "1 + ?b div 2 \<le> c + 4" by (simp add: c)
  then have "(2::nat) ^ (1 + ?b div 2) \<le> 2 ^ (c + 4)" by (rule power_increasing) simp
  with isqrt_ceil_bounds(2) [of p] have m: "unat (isqrt_ceil p) \<le> 2 ^ (c + 4)" by simp
  have "(2::nat) ^ 4 \<le> 2 ^ (c + 4)" by (rule power_increasing) simp_all
  then have "(2::nat) ^ (c + 4) + 2 < 2 * 2 ^ (c + 4)" by simp
  also have "\<dots> = 2 ^ (?b - 1)" by (simp add: c add.commute [of 5 c] flip: power_Suc)
  also have "\<dots> \<le> unat p" using p0 by (rule bit_width_bounds)
  finally show "unat (isqrt_ceil p) + 2 < unat p" using m by simp
  show "6 \<le> unat (isqrt_ceil p)"
  proof (rule ccontr)
    assume "\<not> 6 \<le> unat (isqrt_ceil p)"
    then have "unat (isqrt_ceil p) \<le> 5" by simp
    then have "unat (isqrt_ceil p) * unat (isqrt_ceil p) \<le> 5 * 5" by (intro mult_le_mono)
    with isqrt_ceil_bounds(1) [of p] assms show False by simp
  qed
qed

lemma word_mod_eq_0_iff:
  fixes p i :: u64
  shows "p mod i = 0 \<longleftrightarrow> unat i dvd unat p"
proof -
  have "p mod i = 0 \<longleftrightarrow> unat (p mod i) = 0" by (simp add: unat_eq_zero)
  also have "\<dots> \<longleftrightarrow> unat p mod unat i = 0" by (simp add: unat_mod)
  also have "\<dots> \<longleftrightarrow> unat i dvd unat p" by (simp add: dvd_eq_mod_eq_0)
  finally show ?thesis .
qed

lemma unat_add_small:
  fixes i :: u64
  assumes "unat i \<le> 2 ^ 33"
  shows "unat (i + 2) = unat i + 2" and "unat (i + 6) = unat i + 6" and "i + 2 \<noteq> 0"
proof -
  from assms show a: "unat (i + 2) = unat i + 2" by (simp add: unat_word_ariths)
  from assms show "unat (i + 6) = unat i + 6" by (simp add: unat_word_ariths)
  from a have "unat (i + 2) \<noteq> 0" by simp
  then show "i + 2 \<noteq> 0" by (simp add: unat_eq_zero)
qed

lemma wheel_loop_total:
  assumes "unat m \<le> 2 ^ 33" and "0 < unat i"
  shows "wheel_loop p m i =
    Some (\<forall>t. unat i + 6 * t \<le> unat m \<longrightarrow>
            \<not> (unat i + 6 * t) dvd unat p \<and> \<not> (unat i + 6 * t + 2) dvd unat p)"
  using assms(2)
proof (induction "unat m + 1 - unat i" arbitrary: i rule: less_induct)
  case less
  let ?Q = "\<lambda>i t. unat i + 6 * t \<le> unat m \<longrightarrow>
            \<not> (unat i + 6 * t) dvd unat p \<and> \<not> (unat i + 6 * t + 2) dvd unat p"
  show ?case
  proof (cases "i \<le> m")
    case False
    then have "unat m < unat i" by (simp add: word_le_nat_alt)
    then have "\<forall>t. ?Q i t" by simp
    with False show ?thesis by (subst wheel_loop.simps) simp
  next
    case True
    then have im: "unat i \<le> unat m" by (simp add: word_le_nat_alt)
    with assms(1) have i33: "unat i \<le> 2 ^ 33" by simp
    from less.prems have i0: "i \<noteq> 0" by (auto simp: unat_eq_zero)
    note small = unat_add_small [OF i33]
    show ?thesis
    proof (cases "unat i dvd unat p \<or> (unat i + 2) dvd unat p")
      case True
      then have "\<not> ?Q i 0" using im by auto
      then have "\<not> (\<forall>t. ?Q i t)" by blast
      with True \<open>i \<le> m\<close> i0 small show ?thesis
        by (subst wheel_loop.simps) (auto simp: word_mod_eq_0_iff)
    next
      case False
      have "unat m + 1 - unat (i + 6) < unat m + 1 - unat i"
        using im small(2) by simp
      moreover have "0 < unat (i + 6)" using small(2) by simp
      ultimately have ih: "wheel_loop p m (i + 6) = Some (\<forall>t. ?Q (i + 6) t)"
        by (rule less.hyps)
      have "(\<forall>t. ?Q i t) \<longleftrightarrow> (\<forall>t. ?Q (i + 6) t)"
      proof
        assume a: "\<forall>t. ?Q i t"
        show "\<forall>t. ?Q (i + 6) t"
        proof
          fix t
          from a have "?Q i (Suc t)" by blast
          then show "?Q (i + 6) t" by (simp add: small(2) add.assoc add.commute add.left_commute)
        qed
      next
        assume a: "\<forall>t. ?Q (i + 6) t"
        show "\<forall>t. ?Q i t"
        proof
          fix t
          show "?Q i t"
          proof (cases t)
            case 0
            with False show ?thesis by simp
          next
            case (Suc s)
            from a have "?Q (i + 6) s" by blast
            then show ?thesis by (simp add: Suc small(2) add.assoc add.commute add.left_commute)
          qed
        qed
      qed
      with False \<open>i \<le> m\<close> i0 small ih show ?thesis
        by (subst wheel_loop.simps) (simp add: word_mod_eq_0_iff)
    qed
  qed
qed

lemma unat_ucast_8_64:
  fixes w :: u8
  shows "unat (ucast w :: u64) = unat w"
proof -
  have "unat w < 2 ^ 8" using unsigned_less [of w] by simp
  then have "unat w < 2 ^ 64" by simp
  then show ?thesis
    by (simp add: unsigned_ucast_eq take_bit_nat_eq_self)
qed

lemma unat_small_prime: "unat (ucast (SMALL_PRIMES ! k) :: u64) = small_prime k"
  by (simp add: small_prime_def unat_ucast_8_64)

lemma small_prime_less: "small_prime k < 256"
  unfolding small_prime_def using unsigned_less [of "SMALL_PRIMES ! k", where 'a = nat] by simp

lemma small_primes_nat:
  "map unat SMALL_PRIMES =
    [1,2,3,5,7,11,13,17,19,23,29,31,37,41,43,47,53,59,61,67,71,73,79,83,89,97,101,
     103,107,109,113,127,131,137,139,149,151,157,163,167,173,179,181,191,193,197,199,
     211,223,227,229,233,239,241,251]"
  by (simp add: SMALL_PRIMES_def)

lemma small_primes_gaps:
  "successively (\<lambda>a b. a < b \<and> (\<forall>n\<in>set [Suc a..<b]. \<exists>d\<in>set [2,3,5,7,11,13]. d dvd n \<and> d < n))
    [1,2,3,5,7,11,13,17,19,23,29,31,37,41,43,47,53,59,61,67,71,73,79,83,89,97,101,
     103,107,109,113,127,131,137,139,149,151,157,163,167,173,179,181,191,193,197,199,
     211,223,227,229,233,239,241,251::nat]"
  by code_simp

lemma successively_nth:
  "successively P xs \<Longrightarrow> Suc i < length xs \<Longrightarrow> P (xs ! i) (xs ! Suc i)"
proof (induction P xs arbitrary: i rule: successively.induct)
  case (3 P x y xs)
  then show ?case by (cases i) simp_all
qed simp_all

lemma small_prime_step:
  assumes "k < 54"
  shows "small_prime k < small_prime (Suc k)"
    and "small_prime k < n \<Longrightarrow> n < small_prime (Suc k) \<Longrightarrow> \<exists>d. d dvd n \<and> 1 < d \<and> d < n"
proof -
  let ?N = "map unat SMALL_PRIMES"
  have len: "length SMALL_PRIMES = 55" by (simp add: SMALL_PRIMES_def)
  have a: "?N ! k = small_prime k" "?N ! Suc k = small_prime (Suc k)"
    using assms len by (simp_all add: small_prime_def)
  have "Suc k < length ?N" using assms len by simp
  with small_primes_gaps [folded small_primes_nat]
  have g: "?N ! k < ?N ! Suc k \<and>
    (\<forall>n\<in>set [Suc (?N ! k)..<?N ! Suc k]. \<exists>d\<in>set [2,3,5,7,11,13]. d dvd n \<and> d < n)"
    by (rule successively_nth)
  then show "small_prime k < small_prime (Suc k)" by (simp only: a)
  assume "small_prime k < n" "n < small_prime (Suc k)"
  then have "n \<in> set [Suc (?N ! k)..<?N ! Suc k]" by (simp add: a)
  with g obtain d where "d \<in> set [2,3,5,7,11,13]" "d dvd n" "d < n" by blast
  moreover from this(1) have "1 < d" by auto
  ultimately show "\<exists>d. d dvd n \<and> 1 < d \<and> d < n" by blast
qed

lemma small_prime_2_3: "small_prime 2 = 3" "small_prime 3 = 5"
  by (simp_all add: small_prime_def SMALL_PRIMES_def)

lemma small_prime_mono: "j \<le> k \<Longrightarrow> k \<le> 54 \<Longrightarrow> small_prime j \<le> small_prime k"
proof (induction k)
  case 0
  then show ?case by simp
next
  case (Suc k)
  show ?case
  proof (cases "j = Suc k")
    case True
    then show ?thesis by simp
  next
    case False
    with Suc have "small_prime j \<le> small_prime k" by simp
    moreover have "small_prime k < small_prime (Suc k)"
      using Suc.prems by (intro small_prime_step) simp
    ultimately show ?thesis by simp
  qed
qed

lemma small_primes_complete:
  assumes "prime_nat q" and "3 \<le> q"
  shows "2 \<le> k \<Longrightarrow> k \<le> 54 \<Longrightarrow> q < small_prime k \<Longrightarrow> \<exists>l. 2 \<le> l \<and> l < k \<and> q = small_prime l"
proof (induction k)
  case 0
  then show ?case by simp
next
  case (Suc k)
  then have k: "k < 54" by simp
  show ?case
  proof (cases "k = 1")
    case True
    have "small_prime (Suc (Suc 0)) = 3"
      using small_prime_2_3(1) by (simp only: numeral_2_eq_2)
    with True Suc.prems assms(2) show ?thesis by simp
  next
    case False
    with Suc.prems have k2: "2 \<le> k" by simp
    consider "q < small_prime k" | "q = small_prime k" | "small_prime k < q" by linarith
    then show ?thesis
    proof cases
      case 1
      with Suc.IH k2 k obtain l where "2 \<le> l" "l < k" "q = small_prime l" by auto
      then show ?thesis by (intro exI [of _ l]) simp
    next
      case 2
      with k2 show ?thesis by (intro exI [of _ k]) simp
    next
      case 3
      from small_prime_step(2) [OF k 3 Suc.prems(3)]
      obtain d where "d dvd q" "1 < d" "d < q" by blast
      with assms(1) show ?thesis by (auto simp: prime_nat_def)
    qed
  qed
qed

lemma small_loop_result:
  assumes "j \<le> 54"
  shows "case small_loop p m (ucast (SMALL_PRIMES ! j)) j of
           None \<Rightarrow> \<exists>k. j \<le> k \<and> k < 54 \<and> small_prime k \<le> unat m \<and> small_prime k dvd unat p
         | Some i \<Rightarrow> \<exists>k. j \<le> k \<and> k \<le> 54 \<and> unat i = small_prime k
                     \<and> (k = 54 \<or> unat m < small_prime k)
                     \<and> (\<forall>l. j \<le> l \<and> l < k \<longrightarrow> \<not> small_prime l dvd unat p)"
  using assms
proof (induction "54 - j" arbitrary: j)
  case 0
  then have j: "j = 54" by simp
  show ?case
    by (subst small_loop.simps) (auto simp: j NUM_SMALL_PRIMES_def unat_small_prime)
next
  case (Suc n)
  then have j: "j < 54" and n: "n = 54 - Suc j" and sj: "Suc j \<le> 54" by simp_all
  let ?i = "ucast (SMALL_PRIMES ! j) :: u64"
  show ?case
  proof (cases "?i \<le> m")
    case False
    then have "unat m < small_prime j"
      by (simp add: word_le_nat_alt unat_small_prime)
    then have "\<exists>k. j \<le> k \<and> k \<le> 54 \<and> unat ?i = small_prime k
                     \<and> (k = 54 \<or> unat m < small_prime k)
                     \<and> (\<forall>l. j \<le> l \<and> l < k \<longrightarrow> \<not> small_prime l dvd unat p)"
      using j by (intro exI [of _ j]) (auto simp: unat_small_prime)
    with False show ?thesis
      by (subst small_loop.simps) simp
  next
    case le: True
    then have lem: "small_prime j \<le> unat m"
      by (simp add: word_le_nat_alt unat_small_prime)
    show ?thesis
    proof (cases "p mod ?i = 0")
      case True
      then have "small_prime j dvd unat p"
        by (simp add: word_mod_eq_0_iff unat_small_prime)
      with j lem have "\<exists>k. j \<le> k \<and> k < 54 \<and> small_prime k \<le> unat m \<and> small_prime k dvd unat p"
        by (intro exI [of _ j]) simp
      with True le j show ?thesis
        by (subst small_loop.simps) (simp add: NUM_SMALL_PRIMES_def)
    next
      case False
      then have nd: "\<not> small_prime j dvd unat p"
        by (simp add: word_mod_eq_0_iff unat_small_prime)
      have step: "small_loop p m ?i j = small_loop p m (ucast (SMALL_PRIMES ! Suc j)) (Suc j)"
        using False le j by (subst small_loop.simps) (simp add: NUM_SMALL_PRIMES_def)
      show ?thesis
      proof (cases "small_loop p m (ucast (SMALL_PRIMES ! Suc j)) (Suc j)")
        case None
        with Suc.hyps(1) [OF n sj] obtain k where "Suc j \<le> k" "k < 54"
          "small_prime k \<le> unat m" "small_prime k dvd unat p" by auto
        then have "\<exists>k. j \<le> k \<and> k < 54 \<and> small_prime k \<le> unat m \<and> small_prime k dvd unat p"
          by (intro exI [of _ k]) simp
        with None show ?thesis by (simp add: step)
      next
        case (Some i')
        with Suc.hyps(1) [OF n sj] obtain k where k: "Suc j \<le> k" "k \<le> 54"
          "unat i' = small_prime k" "k = 54 \<or> unat m < small_prime k"
          "\<forall>l. Suc j \<le> l \<and> l < k \<longrightarrow> \<not> small_prime l dvd unat p"
          by auto
        have "\<forall>l. j \<le> l \<and> l < k \<longrightarrow> \<not> small_prime l dvd unat p"
        proof (intro allI impI)
          fix l assume l: "j \<le> l \<and> l < k"
          show "\<not> small_prime l dvd unat p"
          proof (cases "l = j")
            case True
            with nd show ?thesis by simp
          next
            case False
            with l have "Suc j \<le> l \<and> l < k" by simp
            with k(5) show ?thesis by blast
          qed
        qed
        with k have "\<exists>k. j \<le> k \<and> k \<le> 54 \<and> unat i' = small_prime k
                     \<and> (k = 54 \<or> unat m < small_prime k)
                     \<and> (\<forall>l. j \<le> l \<and> l < k \<longrightarrow> \<not> small_prime l dvd unat p)"
          by (intro exI [of _ k]) simp
        with Some show ?thesis by (simp add: step)
      qed
    qed
  qed
qed

lemma composite_prime_factor:
  assumes "1 < n" and "\<not> prime_nat n"
  shows "\<exists>q. prime_nat q \<and> q dvd n \<and> q * q \<le> n"
proof -
  define q where "q = (LEAST d. 1 < d \<and> d dvd n)"
  from assms obtain d where d: "d dvd n" "d \<noteq> 1" "d \<noteq> n" by (auto simp: prime_nat_def)
  have "d \<noteq> 0" using d(1) assms(1) by (cases "d = 0") simp_all
  moreover have "d \<le> n" using d(1) assms(1) by (intro dvd_imp_le) simp_all
  ultimately have d1: "1 < d" "d < n" using d(2,3) by simp_all
  with d(1) have ex: "1 < d \<and> d dvd n" by simp
  from LeastI [of "\<lambda>d. 1 < d \<and> d dvd n", OF ex] have q: "1 < q" "q dvd n"
    by (simp_all add: q_def)
  have least: "q \<le> e" if "1 < e" "e dvd n" for e
    unfolding q_def using that by (intro Least_le) simp
  have "q \<le> d" using d1(1) d(1) by (rule least)
  with d1(2) have qn: "q < n" by simp
  have "prime_nat q"
    unfolding prime_nat_def
  proof (intro conjI allI impI)
    show "1 < q" by (rule q)
    fix e assume e: "e dvd q"
    then have "e dvd n" using q(2) by (rule dvd_trans)
    have "e \<le> q" using e q(1) by (intro dvd_imp_le) simp_all
    have "e \<noteq> 0" using e q(1) by (cases "e = 0") simp_all
    show "e = 1 \<or> e = q"
    proof (cases "e = 1")
      case False
      with \<open>e \<noteq> 0\<close> have "1 < e" by simp
      then have "q \<le> e" using \<open>e dvd n\<close> by (rule least)
      with \<open>e \<le> q\<close> show ?thesis by simp
    qed simp
  qed
  moreover from q(2) obtain c where c: "n = q * c" by (auto simp: dvd_def)
  have "q * q \<le> n"
  proof -
    have "c \<noteq> 0" using c assms(1) by (cases "c = 0") simp_all
    moreover have "c \<noteq> 1" using c qn by (cases "c = 1") simp_all
    ultimately have "1 < c" by simp
    moreover have "c dvd n" by (simp add: c)
    ultimately have "q \<le> c" by (rule least)
    then have "q * q \<le> q * c" by (rule mult_le_mono2)
    then show ?thesis by (simp add: c)
  qed
  ultimately show ?thesis using q(2) by blast
qed

lemma wheel_start:
  fixes i :: u64
  assumes "5 \<le> unat i" and "unat i < 256"
  shows "unat (5 + ((i - 5) div 6) * 6) = 5 + ((unat i - 5) div 6) * 6"
proof -
  have "(5 :: u64) \<le> i" using assms(1) by (simp add: word_le_nat_alt)
  then have a: "unat (i - 5) = unat i - 5" by (simp add: unat_sub)
  then have b: "unat ((i - 5) div 6) = (unat i - 5) div 6" by (simp add: unat_div)
  have "unat (((i - 5) div 6) * 6) = ((unat i - 5) div 6) * 6 mod 2 ^ 64"
    by (simp add: unat_word_ariths(2) b)
  also have "\<dots> = ((unat i - 5) div 6) * 6"
    using assms(2) by (intro mod_less) simp
  finally have c: "unat (((i - 5) div 6) * 6) = ((unat i - 5) div 6) * 6" .
  have "unat (5 + ((i - 5) div 6) * 6) = (5 + ((unat i - 5) div 6) * 6) mod 2 ^ 64"
    by (simp add: unat_word_ariths(1) c)
  also have "\<dots> = 5 + ((unat i - 5) div 6) * 6"
    using assms(2) by (intro mod_less) simp
  finally show ?thesis .
qed

lemma prime_nat_mod_6:
  assumes "prime_nat q" and "5 \<le> q"
  shows "q mod 6 = 1 \<or> q mod 6 = 5"
proof -
  have "\<not> 2 dvd q" using assms by (auto simp: prime_nat_def)
  moreover have "\<not> 3 dvd q" using assms by (auto simp: prime_nat_def)
  ultimately show ?thesis by presburger
qed

lemma is_prime_large:
  assumes big: "32 \<le> unat p" and odd: "odd (unat p)"
  shows "is_prime p = Some (prime_nat (unat p))"
proof -
  let ?m = "isqrt_ceil p"
  let ?P = "unat p"
  have m_sq: "?P \<le> unat ?m * unat ?m" by (rule isqrt_ceil_bounds)
  have m33: "unat ?m \<le> 2 ^ 33" by (rule isqrt_ceil_le)
  have m_lt: "unat ?m + 2 < ?P" and m6: "6 \<le> unat ?m"
    using big by (rule isqrt_ceil_below)+
  have p2: "p mod 2 \<noteq> 0" using odd by (simp add: word_mod_eq_0_iff)
  have sp2: "2 \<le> k \<Longrightarrow> k \<le> 54 \<Longrightarrow> 3 \<le> small_prime k" for k
    using small_prime_mono [of 2 k] by (simp add: small_prime_2_3)
  show ?thesis
  proof (cases "small_loop p ?m (ucast (SMALL_PRIMES ! 2)) 2")
    case None
    with small_loop_result [where j = 2 and p = p and m = ?m] obtain k where k: "2 \<le> k" "k < 54"
      "small_prime k \<le> unat ?m" "small_prime k dvd ?P" by auto
    from sp2 [of k] k have "small_prime k \<noteq> 1" by simp
    moreover from k(3) m_lt have "small_prime k \<noteq> ?P" by simp
    ultimately have "\<not> prime_nat ?P" using k(4) by (auto simp: prime_nat_def)
    with None p2 show ?thesis by (simp add: is_prime_def Let_def)
  next
    case (Some i)
    with small_loop_result [where j = 2 and p = p and m = ?m] obtain k where k: "2 \<le> k" "k \<le> 54"
      "unat i = small_prime k" "k = 54 \<or> unat ?m < small_prime k"
      "\<forall>l. 2 \<le> l \<and> l < k \<longrightarrow> \<not> small_prime l dvd ?P" by auto
    have "k \<noteq> 2" using k(4) m6 by (auto simp: small_prime_2_3)
    with k(1) have k3: "3 \<le> k" by simp
    then have n5: "5 \<le> unat i"
      using small_prime_mono [of 3 k] k(2) by (simp add: small_prime_2_3 k(3))
    have n256: "unat i < 256" by (simp add: k(3) small_prime_less)
    define a where "a = 5 + ((unat i - 5) div 6) * 6"
    have ua: "unat (5 + ((i - 5) div 6) * 6) = a"
      unfolding a_def using n5 n256 by (rule wheel_start)
    have a5: "5 \<le> a" and a6: "a mod 6 = 5" and an: "a \<le> unat i"
      using n5 by (simp_all add: a_def)
    let ?W = "\<forall>t. a + 6 * t \<le> unat ?m \<longrightarrow> \<not> (a + 6 * t) dvd ?P \<and> \<not> (a + 6 * t + 2) dvd ?P"
    have wheel: "wheel_loop p ?m (5 + ((i - 5) div 6) * 6) = Some ?W"
      using wheel_loop_total [OF m33, of "5 + ((i - 5) div 6) * 6" p] a5 by (simp add: ua)
    have "?W \<longleftrightarrow> prime_nat ?P"
    proof
      assume pr: "prime_nat ?P"
      show ?W
      proof (intro allI impI)
        fix t assume t: "a + 6 * t \<le> unat ?m"
        have nd: "\<not> d dvd ?P" if "1 < d" "d < ?P" for d
          using pr that by (auto simp: prime_nat_def)
        from t a5 m_lt show "\<not> (a + 6 * t) dvd ?P \<and> \<not> (a + 6 * t + 2) dvd ?P"
          by (intro conjI nd) simp_all
      qed
    next
      assume w: ?W
      show "prime_nat ?P"
      proof (rule ccontr)
        assume "\<not> prime_nat ?P"
        moreover have "1 < ?P" using big by simp
        ultimately obtain q where q: "prime_nat q" "q dvd ?P" "q * q \<le> ?P"
          using composite_prime_factor by blast
        have "q \<noteq> 2" using q(2) odd by auto
        moreover have "1 < q" using q(1) by (simp add: prime_nat_def)
        ultimately have q3: "3 \<le> q" by simp
        have qm: "q \<le> unat ?m"
        proof (rule ccontr)
          assume "\<not> q \<le> unat ?m"
          then have "unat ?m + 1 \<le> q" by simp
          then have "(unat ?m + 1) * (unat ?m + 1) \<le> q * q" by (intro mult_le_mono)
          with q(3) m_sq show False by simp
        qed
        show False
        proof (cases "q < small_prime k")
          case True
          with small_primes_complete [OF q(1) q3 k(1,2)]
          obtain l where "2 \<le> l" "l < k" "q = small_prime l" by blast
          with k(5) q(2) show False by blast
        next
          case False
          with an k(3) have aq: "a \<le> q" by simp
          with a5 have "5 \<le> q" by simp
          with q(1) have "q mod 6 = 1 \<or> q mod 6 = 5" by (rule prime_nat_mod_6)
          then show False
          proof
            assume "q mod 6 = 5"
            with a6 aq obtain t where t: "q = a + 6 * t"
              by (metis mod_eq_dvd_iff_nat dvd_def le_add_diff_inverse)
            with qm w have "\<not> q dvd ?P" by blast
            with q(2) show False by contradiction
          next
            assume "q mod 6 = 1"
            with a6 aq have "\<exists>t. q = a + 6 * t + 2" by presburger
            then obtain t where t: "q = a + 6 * t + 2" by blast
            with qm have "a + 6 * t \<le> unat ?m" by simp
            with w t have "\<not> q dvd ?P" by blast
            with q(2) show False by contradiction
          qed
        qed
      qed
    qed
    with Some p2 wheel show ?thesis by (simp add: is_prime_def Let_def)
  qed
qed

lemma is_prime_small:
  "\<forall>n\<in>set [0..<32]. n \<noteq> 3 \<longrightarrow> is_prime (of_nat n) = Some (prime_nat n \<and> n \<noteq> 2)"
  by code_simp

subsection \<open>The primality test\<close>

text \<open>
  C7 (as amended).  For every 64-bit \<open>p\<close> other than 3, \<open>is_prime\<close> returns a value (no
  loop runs forever and no remainder is taken by zero), and that value is true exactly
  when \<open>p\<close> is a prime number other than 2: every even \<open>p\<close>, 2 included, is rejected by
  the first test.  The bound \<open>isqrt_ceil p\<close> may exceed the exact square root; it never
  falls below it and stays far enough below \<open>p\<close> and \<open>2^64\<close>.
\<close>

theorem is_prime_correct:
  assumes "p \<noteq> 3"
  shows "is_prime p = Some (prime_nat (unat p) \<and> p \<noteq> 2)"
proof (cases "unat p < 32")
  case True
  then have "unat p \<in> set [0..<32]" by simp
  moreover have "unat p \<noteq> 3"
  proof
    assume "unat p = 3"
    then have "unat p = unat (3 :: u64)" by simp
    then have "p = 3" by (simp only: word_unat_eq_iff)
    with assms show False by contradiction
  qed
  ultimately have "is_prime (of_nat (unat p)) = Some (prime_nat (unat p) \<and> unat p \<noteq> 2)"
    using is_prime_small by blast
  moreover have "unat p \<noteq> 2 \<longleftrightarrow> p \<noteq> 2"
    using word_unat_eq_iff [of p 2] by simp
  ultimately show ?thesis by simp
next
  case False
  then have big: "32 \<le> unat p" by simp
  then have p2: "p \<noteq> 2" by auto
  show ?thesis
  proof (cases "odd (unat p)")
    case True
    with big p2 show ?thesis by (simp add: is_prime_large)
  next
    case False
    then have "p mod 2 = 0" by (simp add: word_mod_eq_0_iff)
    moreover have "\<not> prime_nat (unat p)"
      using False big by (auto simp: prime_nat_def)
    ultimately show ?thesis by (simp add: is_prime_def)
  qed
qed

lemma prime_nat_97: "prime_nat 97"
  by code_simp

theorem is_prime_correct_witness:
  "(97 :: u64) \<noteq> 3 \<and> is_prime 97 = Some True"
proof -
  have a: "(97 :: u64) \<noteq> 3" by simp
  show ?thesis
    using a is_prime_correct [OF a] prime_nat_97 by simp
qed

text \<open>
  C7 (as stated) fails at 2: the number 2 is prime and \<open>is_prime\<close> returns false.
\<close>

theorem is_prime_2: "is_prime 2 = Some False \<and> prime_nat 2"
  by code_simp

subsection \<open>The prime search\<close>

lemma is_prime_odd:
  assumes "odd (unat p)" and "5 \<le> unat p"
  shows "is_prime p = Some (prime_nat (unat p))"
proof -
  have "p \<noteq> 3" "p \<noteq> 2" using assms(2) by auto
  then show ?thesis by (simp add: is_prime_correct)
qed

lemma prime_nat_5_7: "prime_nat 5" "prime_nat 7"
  by code_simp+

lemma even_not_prime:
  assumes "even q" and "4 \<le> q"
  shows "\<not> prime_nat q"
  using assms by (auto simp: prime_nat_def)

lemma prime_scan_down:
  assumes "odd (unat p)" and "5 \<le> unat p"
  shows "\<exists>r. prime_scan p = Some r \<and> prime_nat (unat r) \<and> unat r \<le> unat p
           \<and> (\<forall>q. unat r < q \<and> q \<le> unat p \<longrightarrow> \<not> prime_nat q)"
  using assms
proof (induction "unat p" arbitrary: p rule: less_induct)
  case less
  note ip = is_prime_odd [OF less.prems]
  show ?case
  proof (cases "prime_nat (unat p)")
    case True
    with ip have "prime_scan p = Some p" by (subst prime_scan.simps) simp
    with True show ?thesis by auto
  next
    case False
    with prime_nat_5_7(1) have "unat p \<noteq> 5" by auto
    with less.prems have p7: "7 \<le> unat p" by presburger
    then have "(2 :: u64) \<le> p" by (simp add: word_le_nat_alt)
    then have u: "unat (p - 2) = unat p - 2" by (simp add: unat_sub)
    have "odd (unat (p - 2))" "5 \<le> unat (p - 2)" "unat (p - 2) < unat p"
      using less.prems(1) p7 by (simp_all add: u)
    with less.hyps [of "p - 2"] obtain r where r: "prime_scan (p - 2) = Some r"
      "prime_nat (unat r)" "unat r \<le> unat p - 2"
      "\<forall>q. unat r < q \<and> q \<le> unat p - 2 \<longrightarrow> \<not> prime_nat q"
      by (auto simp: u)
    from False ip r(1) have "prime_scan p = Some r" by (subst prime_scan.simps) simp
    moreover have "\<not> prime_nat q" if lo: "unat r < q" and hi: "q \<le> unat p" for q
    proof -
      from hi consider "q \<le> unat p - 2" | "q = unat p - 1" | "q = unat p" by linarith
      then show ?thesis
      proof cases
        case 1
        with r(4) lo show ?thesis by blast
      next
        case 2
        with less.prems(1) p7 have "even q" "4 \<le> q" by simp_all
        then show ?thesis by (rule even_not_prime)
      next
        case 3
        with False show ?thesis by simp
      qed
    qed
    ultimately show ?thesis using r(2,3) by auto
  qed
qed

lemma prime_predecessor_ge5:
  assumes "5 \<le> unat p"
  shows "\<exists>r. prime_predecessor p = Some r \<and> prime_nat (unat r) \<and> unat r \<le> unat p
           \<and> (\<forall>q. unat r < q \<and> q \<le> unat p \<longrightarrow> \<not> prime_nat q)"
proof (cases "odd (unat p)")
  case True
  then have "p mod 2 \<noteq> 0" by (simp add: word_mod_eq_0_iff)
  moreover have "p \<noteq> 0" "p \<noteq> 2" using assms by auto
  ultimately have "prime_predecessor p = prime_scan p" by (simp add: prime_predecessor_def)
  with prime_scan_down [OF True assms] show ?thesis by simp
next
  case False
  then have m: "p mod 2 = 0" by (simp add: word_mod_eq_0_iff)
  have "(1 :: u64) \<le> p" using assms by (simp add: word_le_nat_alt)
  then have u: "unat (p - 1) = unat p - 1" by (simp add: unat_sub)
  have "p \<noteq> 0" "p \<noteq> 2" using assms by auto
  with m have pp: "prime_predecessor p = prime_scan (p - 1)" by (simp add: prime_predecessor_def)
  have "odd (unat (p - 1))" "5 \<le> unat (p - 1)" using False assms by (simp_all add: u) presburger
  from prime_scan_down [OF this] obtain r where r: "prime_scan (p - 1) = Some r"
    "prime_nat (unat r)" "unat r \<le> unat p - 1"
    "\<forall>q. unat r < q \<and> q \<le> unat p - 1 \<longrightarrow> \<not> prime_nat q"
    by (auto simp: u)
  have "\<not> prime_nat q" if "unat r < q" "q \<le> unat p" for q
  proof (cases "q = unat p")
    case True
    with False assms show ?thesis by (intro even_not_prime) simp_all
  next
    case False
    with that r(4) show ?thesis by simp
  qed
  with r(1,2,3) pp show ?thesis by auto
qed

lemma unat_minus_1_u64: "unat (- 1 :: u64) = 18446744073709551615"
  by (simp add: unsigned_minus_1_eq_mask mask_eq_exp_minus_1)

lemma is_prime_1_3: "is_prime 1 = Some False" "is_prime 3 = Some False"
  by code_simp+

lemma prime_scan_wrap:
  "prime_scan 3 = prime_scan (- 1)" "prime_scan 1 = prime_scan (- 1)"
proof -
  show a: "prime_scan 1 = prime_scan (- 1)"
    by (subst prime_scan.simps) (simp add: is_prime_1_3)
  have "prime_scan 3 = prime_scan 1"
    by (subst prime_scan.simps) (simp add: is_prime_1_3)
  with a show "prime_scan 3 = prime_scan (- 1)" by simp
qed

lemma prime_scan_top:
  "\<exists>r. prime_scan (- 1) = Some r \<and> prime_nat (unat r) \<and> 7 \<le> unat r"
proof -
  have "odd (unat (- 1 :: u64))" "5 \<le> unat (- 1 :: u64)"
    by (simp_all add: unat_minus_1_u64)
  from prime_scan_down [OF this] obtain r where r: "prime_scan (- 1) = Some r"
    "prime_nat (unat r)" "\<forall>q. unat r < q \<and> q \<le> unat (- 1 :: u64) \<longrightarrow> \<not> prime_nat q"
    by blast
  have "7 \<le> unat r"
  proof (rule ccontr)
    assume "\<not> 7 \<le> unat r"
    then have "unat r < 7 \<and> 7 \<le> unat (- 1 :: u64)"
      by (simp add: unat_minus_1_u64)
    with r(3) prime_nat_5_7(2) show False by blast
  qed
  with r show ?thesis by blast
qed

lemma and_3_mod_4:
  fixes p :: u64
  shows "p AND 3 = 3 \<longleftrightarrow> unat p mod 4 = 3"
proof -
  have "p AND 3 = p AND mask 2" by (simp add: mask_eq_exp_minus_1)
  also have "\<dots> = take_bit 2 p" by (simp add: take_bit_eq_mask)
  finally have "unat (p AND 3) = unat p mod 4"
    by (simp add: unsigned_take_bit_eq take_bit_eq_mod unat_mod)
  moreover have "p AND 3 = 3 \<longleftrightarrow> unat (p AND 3) = unat (3 :: u64)"
    by (simp only: word_unat_eq_iff)
  ultimately show ?thesis by simp
qed

lemma prev_prime_loop_total:
  assumes "7 \<le> unat p"
  shows "\<exists>r. prev_prime_loop p = Some r \<and> 7 \<le> unat r \<and> unat r \<le> unat p
           \<and> unat r mod 4 = 3 \<and> (r = p \<or> prime_nat (unat r))"
  using assms
proof (induction "unat p" arbitrary: p rule: less_induct)
  case less
  show ?case
  proof (cases "p AND 3 = 3")
    case True
    then have "prev_prime_loop p = Some p" by (subst prev_prime_loop.simps) simp
    with True less.prems show ?thesis by (simp add: and_3_mod_4)
  next
    case False
    then have "unat p \<noteq> 7" by (auto simp: and_3_mod_4)
    with less.prems have p8: "8 \<le> unat p" by simp
    then have "(1 :: u64) \<le> p" by (simp add: word_le_nat_alt)
    then have u: "unat (p - 1) = unat p - 1" by (simp add: unat_sub)
    have "5 \<le> unat (p - 1)" using p8 by (simp add: u)
    from prime_predecessor_ge5 [OF this] obtain r' where r': "prime_predecessor (p - 1) = Some r'"
      "prime_nat (unat r')" "unat r' \<le> unat p - 1"
      "\<forall>q. unat r' < q \<and> q \<le> unat p - 1 \<longrightarrow> \<not> prime_nat q"
      by (auto simp: u)
    have r7: "7 \<le> unat r'"
    proof (rule ccontr)
      assume "\<not> 7 \<le> unat r'"
      with p8 have "unat r' < 7 \<and> 7 \<le> unat p - 1" by simp
      with r'(4) prime_nat_5_7(2) show False by blast
    qed
    have "unat r' < unat p" using r'(3) p8 by simp
    from less.hyps [OF this r7] obtain r where r: "prev_prime_loop r' = Some r"
      "7 \<le> unat r" "unat r \<le> unat r'" "unat r mod 4 = 3" "r = r' \<or> prime_nat (unat r)"
      by blast
    from False r'(1) r(1) have "prev_prime_loop p = Some r"
      by (subst prev_prime_loop.simps) simp
    moreover have "prime_nat (unat r)" using r(5) r'(2) by auto
    ultimately show ?thesis using r(2,3,4) r'(3) by auto
  qed
qed

lemma common_lookup_small:
  "common_lookup common_universes 1 = None" "common_lookup common_universes 2 = None"
  "common_lookup common_universes 3 = None" "common_lookup common_universes 4 = None"
  "common_lookup common_universes 5 = None" "common_lookup common_universes 6 = None"
  by (simp_all add: common_universes_def pow2_def UINT64_MAX_def)

lemma prev_prime_loop_wrap:
  "\<exists>r. Option.bind (prime_scan (- 1)) prev_prime_loop = Some r \<and> 7 \<le> unat r
        \<and> prime_nat (unat r) \<and> unat r mod 4 = 3"
proof -
  from prime_scan_top obtain r0 where r0: "prime_scan (- 1) = Some r0"
    "prime_nat (unat r0)" "7 \<le> unat r0" by blast
  from prev_prime_loop_total [OF r0(3)] obtain r where "prev_prime_loop r0 = Some r"
    "7 \<le> unat r" "unat r mod 4 = 3" "r = r0 \<or> prime_nat (unat r)" by blast
  with r0 show ?thesis by auto
qed

text \<open>
  C8.  \<open>prime_predecessor(3)\<close> returns a value above 3: \<open>is_prime(3)\<close> and \<open>is_prime(1)\<close>
  are false, \<open>1 - 2\<close> wraps around to \<open>2^64 - 1\<close>, and the scan stops at the largest prime
  below \<open>2^64\<close>.
\<close>

theorem prime_predecessor_3: "\<exists>r. prime_predecessor 3 = Some r \<and> 3 < r"
proof -
  have "prime_predecessor 3 = prime_scan 3" by (simp add: prime_predecessor_def)
  with prime_scan_wrap(1) prime_scan_top obtain r where "prime_predecessor 3 = Some r" "7 \<le> unat r"
    by auto
  then show ?thesis by (auto simp: word_less_nat_alt)
qed

lemma prev_prime_3mod4_wrap:
  assumes "u = 1 \<or> u = 3"
  shows "\<exists>r. prev_prime_3mod4 u = Some r \<and> 7 \<le> unat r
           \<and> prime_nat (unat r) \<and> unat r mod 4 = 3"
proof -
  from assms have "prime_predecessor u = prime_scan (- 1)"
    by (auto simp: prime_predecessor_def prime_scan_wrap)
  moreover from assms have "common_lookup common_universes u = None"
    by (auto simp: common_lookup_small)
  ultimately have "prev_prime_3mod4 u = Option.bind (prime_scan (- 1)) prev_prime_loop"
    by (simp add: prev_prime_3mod4_def)
  with prev_prime_loop_wrap show ?thesis by simp
qed

text \<open>
  C4.  \<open>prev_prime_3mod4(3)\<close> returns a value above 3, although 3 itself is a prime
  congruent to 3 modulo 4.
\<close>

theorem prev_prime_3mod4_3: "\<exists>r. prev_prime_3mod4 3 = Some r \<and> 3 < r"
proof -
  from prev_prime_3mod4_wrap [of 3] obtain r where "prev_prime_3mod4 3 = Some r" "7 \<le> unat r"
    by auto
  then show ?thesis by (auto simp: word_less_nat_alt)
qed

lemma make_permutation_wrap:
  assumes "u = 1 \<or> u = 3"
  shows "\<exists>r. make_permutation u s = Some \<lparr>universe = u, seed = (s XOR SHUFFLE1) XOR SHUFFLE2, prime = r\<rparr>
           \<and> 7 \<le> unat r"
proof -
  from prev_prime_3mod4_wrap [OF assms] obtain r where "prev_prime_3mod4 u = Some r" "7 \<le> unat r"
    by blast
  then show ?thesis by (auto simp: make_permutation_def)
qed

text \<open>
  C3.  The permutations constructed for the universes 1 and 3 have a prime field above
  their universe.
\<close>

theorem make_permutation_prime_above:
  "(\<exists>P. make_permutation 1 0 = Some P \<and> universe P < prime P)
   \<and> (\<exists>P. make_permutation 3 0 = Some P \<and> universe P < prime P)"
proof -
  have "\<exists>P. make_permutation u 0 = Some P \<and> universe P < prime P" if "u = 1 \<or> u = 3" for u
  proof -
    from make_permutation_wrap [OF that, of 0] obtain r where
      r: "make_permutation u 0 = Some \<lparr>universe = u, seed = (0 XOR SHUFFLE1) XOR SHUFFLE2, prime = r\<rparr>"
      "7 \<le> unat r" by blast
    from that r(2) have "u < r" by (auto simp: word_less_nat_alt)
    with r(1) show ?thesis by simp
  qed
  then show ?thesis by simp
qed

text \<open>
  C10.  The permutation of the universe 3 with the seed \<open>0x448002000C001C66\<close> (internal
  seed 2) maps the index 0 to 4, which is not below the universe.
\<close>

theorem permute_index_out_of_range:
  "\<exists>P. make_permutation 3 0x448002000C001C66 = Some P \<and> permute_index P 0 = Some 4"
proof -
  have sd: "((0x448002000C001C66 :: u64) XOR SHUFFLE1) XOR SHUFFLE2 = 2"
    by (simp add: SHUFFLE1_def SHUFFLE2_def)
  from make_permutation_wrap [of 3 "0x448002000C001C66"] obtain r where
    r: "make_permutation 3 0x448002000C001C66 = Some \<lparr>universe = 3, seed = 2, prime = r\<rparr>"
    "7 \<le> unat r" by (auto simp: sd)
  let ?P = "\<lparr>universe = 3, seed = 2, prime = r\<rparr>"
  have lt: "(0 :: u64) < prime ?P" "(2 :: u64) < prime ?P"
    using r(2) by (simp_all add: word_less_nat_alt)
  have "unat (permute ?P 0) = qr_step (unat r) 0"
    using permute_unat [OF lt(1)] by simp
  then have "unat (permute ?P 0) = 0" by (simp add: qr_step_def)
  then have p0: "permute ?P 0 = 0" by (simp add: unat_eq_zero)
  have "unat (permute ?P 2) = qr_step (unat r) 2"
    using permute_unat [OF lt(2)] by simp
  also have "\<dots> = 4" using r(2) by (simp add: qr_step_def)
  finally have "unat (permute ?P 2) = unat (4 :: u64)" by simp
  then have p2: "permute ?P 2 = 4" by (simp only: word_unat_eq_iff)
  have "permute_index ?P 0 = Some 4"
    by (simp add: permute_index_def p0 p2)
  with r(1) show ?thesis by blast
qed

subsection \<open>Evaluation at concrete inputs\<close>

lemma bit_width_max: "bit_width 0xFFFFFFFFFFFFFFFF = 64"
  by (simp add: bit_width_def bit_width_nat.simps)

lemma isqrt_loop_max: "isqrt_loop 0xFFFFFFFFFFFFFFFF 32 1 = 0x100000001"
  by code_simp

lemma isqrt_small: "isqrt_floor 8 = 4 \<and> isqrt_floor 15 = 4 \<and> isqrt_ceil 8 = 4"
  by code_simp

text \<open>
  C9.  The integer square root of 8 is 2 rounded down and 3 rounded up.  \<open>isqrt_floor\<close>
  and \<open>isqrt_ceil\<close> both return 4: the bit width of 8 is 4, so the loop runs twice from
  \<open>r = 1\<close> and doubles \<open>r\<close> each time.  At \<open>2^64 - 1\<close>, whose square root rounded down is
  \<open>2^32 - 1\<close>, \<open>isqrt_floor\<close> returns \<open>2^32 + 1\<close>: the square \<open>lg * lg\<close> of the last round
  wraps around.  In each case the square of the result exceeds the argument.
\<close>

theorem isqrt_floor_8:
  "isqrt_floor 8 = 4 \<and> isqrt_floor 15 = 4 \<and> isqrt_ceil 8 = 4
   \<and> isqrt_floor 0xFFFFFFFFFFFFFFFF = 0x100000001"
  using isqrt_small by (simp add: isqrt_floor_def bit_width_max isqrt_loop_max)

text \<open>
  The loop from \<open>begin()\<close> to \<open>end()\<close> over any permutation with a universe \<open>u\<close> other
  than zero dereferences the indices \<open>0, ..., u\<close> in order: \<open>u + 1\<close> values.
\<close>

lemma iterate_from_run:
  assumes u: "universe P \<noteq> 0" and k: "k \<le> unat (universe P)"
  shows "iterate_from (end_it P) \<lparr>perm = P, it_x = of_nat k, overflow = False\<rparr> acc =
     Some (rev acc @ map (\<lambda>i. (of_nat i, permute P ((seed P + permute P (of_nat i)) mod universe P)))
                        [k..<Suc (unat (universe P))])"
  using k
proof (induction "unat (universe P) - k" arbitrary: k acc)
  case 0
  then have k: "k = unat (universe P)" by simp
  then have ku: "(of_nat k :: u64) = universe P" by simp
  let ?it = "\<lparr>perm = P, it_x = of_nat k, overflow = False\<rparr>"
  have ne: "?it \<noteq> end_it P" by (simp add: end_it_def)
  have nx: "incr ?it = end_it P" by (simp add: incr_def end_it_def ku)
  have d: "deref ?it = Some (permute P ((seed P + permute P (of_nat k)) mod universe P))"
    using u by (simp add: deref_def permute_index_def)
  have "iterate_from (end_it P) ?it acc =
      iterate_from (end_it P) (end_it P)
        ((of_nat k, permute P ((seed P + permute P (of_nat k)) mod universe P)) # acc)"
    using ne by (subst iterate_from.simps) (simp add: d nx)
  also have "\<dots> = Some (rev ((of_nat k, permute P ((seed P + permute P (of_nat k)) mod universe P)) # acc))"
    by (subst iterate_from.simps) simp
  finally show ?case by (simp add: k)
next
  case (Suc n)
  then have k: "k < unat (universe P)" and n: "n = unat (universe P) - Suc k" by simp_all
  let ?it = "\<lparr>perm = P, it_x = of_nat k, overflow = False\<rparr>"
  have k64: "k < 2 ^ 64" using k unsigned_less [of "universe P", where 'a = nat] by simp
  have "unat (of_nat k :: u64) = k" using k64 by (simp add: unat_of_nat)
  with k have ku: "(of_nat k :: u64) \<noteq> universe P" by auto
  have ne: "?it \<noteq> end_it P" by (simp add: end_it_def)
  have nx: "incr ?it = \<lparr>perm = P, it_x = of_nat (Suc k), overflow = False\<rparr>"
    by (simp add: incr_def ku)
  have d: "deref ?it = Some (permute P ((seed P + permute P (of_nat k)) mod universe P))"
    using u by (simp add: deref_def permute_index_def)
  have "iterate_from (end_it P) ?it acc =
      iterate_from (end_it P) \<lparr>perm = P, it_x = of_nat (Suc k), overflow = False\<rparr>
        ((of_nat k, permute P ((seed P + permute P (of_nat k)) mod universe P)) # acc)"
    using ne by (subst iterate_from.simps) (simp add: d nx)
  also have "\<dots> = Some (rev ((of_nat k, permute P ((seed P + permute P (of_nat k)) mod universe P)) # acc)
      @ map (\<lambda>i. (of_nat i, permute P ((seed P + permute P (of_nat i)) mod universe P)))
            [Suc k..<Suc (unat (universe P))])"
    using k by (intro Suc.hyps(1) [OF n]) simp
  finally show ?case using k by (simp add: upt_conv_Cons)
qed

lemma iterate_all_general:
  assumes "universe P \<noteq> 0"
  shows "iterate_all P =
     Some (map (\<lambda>i. (of_nat i, permute P ((seed P + permute P (of_nat i)) mod universe P)))
               [0..<Suc (unat (universe P))])"
  using iterate_from_run [OF assms, of 0 "[]"]
  by (simp add: iterate_all_def begin_it_def iterator_at_def word_gt_0 del: upt_Suc)

text \<open>
  C6.  A loop from \<open>begin()\<close> to \<open>end()\<close> over the default permutation, whose universe
  is 1, dereferences the indices 0 and 1: two values, not one.
\<close>

theorem iterate_all_default:
  "iterate_all default_permutation = Some [(0, 0), (1, 0)]"
  by code_simp

lemma permute_small_wrap:
  assumes "7 \<le> unat r"
  shows "permute \<lparr>universe = u, seed = s, prime = r\<rparr> 1 = 1"
    and "permute \<lparr>universe = u, seed = s, prime = r\<rparr> 2 = 4"
proof -
  let ?P = "\<lparr>universe = u, seed = s, prime = r\<rparr>"
  have lt: "(1 :: u64) < prime ?P" "(2 :: u64) < prime ?P"
    using assms by (simp_all add: word_less_nat_alt)
  have "unat (permute ?P 1) = qr_step (unat r) 1"
    using permute_unat [OF lt(1)] by simp
  also have "\<dots> = 1" using assms by (simp add: qr_step_def)
  finally have "unat (permute ?P 1) = unat (1 :: u64)" by simp
  then show "permute ?P 1 = 1" by (simp only: word_unat_eq_iff)
  have "unat (permute ?P 2) = qr_step (unat r) 2"
    using permute_unat [OF lt(2)] by simp
  also have "\<dots> = 4" using assms by (simp add: qr_step_def)
  finally have "unat (permute ?P 2) = unat (4 :: u64)" by simp
  then show "permute ?P 2 = 4" by (simp only: word_unat_eq_iff)
qed

text \<open>
  C1.  Two inputs where the query is not a bijection.  The permutation of the universe 7
  with the seed \<open>0xBB7FFDFFF3FFE39B\<close> has the internal seed \<open>2^64 - 1\<close> and the prime 7;
  it maps the indices 0 and 3 to the same value 1, because \<open>seed + permute(3)\<close> wraps
  around and \<open>seed + permute(0)\<close> does not.  The permutation of the universe 3 with the
  seed 0 maps the indices 1 and 2 to the same value, because its prime is above the
  universe and \<open>permute(2) = 4\<close> is congruent to \<open>permute(1) = 1\<close> modulo 3.
\<close>

theorem permute_index_collision:
  "make_permutation 7 0xBB7FFDFFF3FFE39B
     = Some \<lparr>universe = 7, seed = 0xFFFFFFFFFFFFFFFF, prime = 7\<rparr>
   \<and> permute_index \<lparr>universe = 7, seed = 0xFFFFFFFFFFFFFFFF, prime = 7\<rparr> 0 = Some 1
   \<and> permute_index \<lparr>universe = 7, seed = 0xFFFFFFFFFFFFFFFF, prime = 7\<rparr> 3 = Some 1
   \<and> (\<exists>P. make_permutation 3 0 = Some P \<and> permute_index P 1 = permute_index P 2)"
proof -
  have a: "make_permutation 7 0xBB7FFDFFF3FFE39B
     = Some \<lparr>universe = 7, seed = 0xFFFFFFFFFFFFFFFF, prime = 7\<rparr>
   \<and> permute_index \<lparr>universe = 7, seed = 0xFFFFFFFFFFFFFFFF, prime = 7\<rparr> 0 = Some 1
   \<and> permute_index \<lparr>universe = 7, seed = 0xFFFFFFFFFFFFFFFF, prime = 7\<rparr> 3 = Some 1"
    by code_simp
  have sd: "((0 :: u64) XOR SHUFFLE1) XOR SHUFFLE2 = 0x448002000C001C64"
    by (simp add: SHUFFLE1_def SHUFFLE2_def)
  from make_permutation_wrap [of 3 0] obtain r where
    r0: "make_permutation 3 0 = Some \<lparr>universe = 3, seed = (0 XOR SHUFFLE1) XOR SHUFFLE2, prime = r\<rparr>"
    and r7: "7 \<le> unat r" by blast
  from r0 have r: "make_permutation 3 0 = Some \<lparr>universe = 3, seed = 0x448002000C001C64, prime = r\<rparr>"
    by (simp only: sd)
  let ?P = "\<lparr>universe = 3, seed = 0x448002000C001C64, prime = r\<rparr>"
  have "permute_index ?P 1 = permute_index ?P 2"
    by (simp add: permute_index_def permute_small_wrap [OF r7])
  with r have "\<exists>P. make_permutation 3 0 = Some P \<and> permute_index P 1 = permute_index P 2"
    by blast
  with a show ?thesis by simp
qed

end
